theory Spec2Isabelle
  imports Complex_Main "HOL-Library.AList"
begin

section \<open>Hoeffding sample bound (\<open>pydvl.utils.numeric\<close>)\<close>

text \<open>
  Modelled from the spec: \<open>lower_bound_hoeffding\<close> lives in \<open>pydvl/utils/numeric.py\<close>,
  which the tests import and whose source is missing. The specification
  gives the formula \<open>m = ceil((score_range^2 * ln(2/delta)) / (2 * eps^2))\<close>; it is taken
  over the real numbers (the rounding of IEEE doubles is not part of the model).
\<close>

definition lower_bound_hoeffding :: "real \<Rightarrow> real \<Rightarrow> real \<Rightarrow> int" where
  "lower_bound_hoeffding delta eps score_range =
     \<lceil>(score_range\<^sup>2 * ln (2 / delta)) / (2 * eps\<^sup>2)\<rceil>"

text \<open>
  Modelled from the spec: the two-sided Hoeffding tail for the mean of \<open>m\<close> independent
  samples of a quantity bounded within \<open>score_range\<close>, that is the bound
  \<open>2 * exp (- 2 m eps^2 / score_range^2)\<close> on the probability that the mean is further than
  \<open>eps\<close> from its expectation.
\<close>

definition hoeffding_tail :: "real \<Rightarrow> real \<Rightarrow> nat \<Rightarrow> real" where
  "hoeffding_tail eps score_range m =
     2 * exp (- (2 * real m * eps\<^sup>2) / score_range\<^sup>2)"


section \<open>Python values, objects and the heap\<close>

text \<open>
  The functions of \<open>pydvl/utils/types.py\<close> work on arbitrary Python values, on callables
  and on objects with identity. A value is \<open>None\<close>, an integer, a string, a reference to
  a heap object or a callable. A callable is an opaque function known by its name (its
  behaviour is given by an environment \<open>app\<close>), the module-level function
  \<open>call_fun_remove_arg\<close>, or a \<open>functools.partial\<close> object holding the wrapped callable,
  the stored positional arguments and the stored keyword arguments.
\<close>

datatype callable =
    Named string
  | CallFunRemoveArg
  | Partial callable "val list" "(string \<times> val) list"
and val =
    VNone
  | VInt int
  | VStr string
  | VRef nat
  | VFun callable

datatype error =
    TypeError string
  | ValueError string
  | AttributeError string
  | ConfigurationError string
  | Raised string

text \<open>
  A heap object is a mutable list or an instance of a class (the class name and the
  attribute dictionary). The heap is the list of all objects; an address is an index
  into it, and a new object is allocated at the end.
\<close>

datatype obj =
    PyList "val list"
  | Obj string "(string \<times> val) list"

type_synonym heap = "obj list"
type_synonym kwargs = "(string \<times> val) list"
type_synonym 'a result = "(error + 'a) \<times> heap"
type_synonym pyfun = "val list \<Rightarrow> kwargs \<Rightarrow> heap \<Rightarrow> val result"

definition lookup :: "heap \<Rightarrow> nat \<Rightarrow> obj option" where
  "lookup h a = (if a < length h then Some (h ! a) else None)"

text \<open>\<open>isinstance\<close> compares the class of the object; subclasses are not modelled.\<close>

definition isinstance :: "heap \<Rightarrow> val \<Rightarrow> string \<Rightarrow> bool" where
  "isinstance h v c =
     (case v of
        VRef a \<Rightarrow> (case lookup h a of Some (Obj c' _) \<Rightarrow> c' = c | _ \<Rightarrow> False)
      | _ \<Rightarrow> False)"

definition getattr :: "heap \<Rightarrow> val \<Rightarrow> string \<Rightarrow> error + val" where
  "getattr h v name =
     (case v of
        VRef a \<Rightarrow>
          (case lookup h a of
             Some (Obj _ attrs) \<Rightarrow>
               (case map_of attrs name of
                  Some x \<Rightarrow> Inr x
                | None \<Rightarrow> Inl (AttributeError name))
           | _ \<Rightarrow> Inl (AttributeError name))
      | _ \<Rightarrow> Inl (AttributeError name))"

text \<open>Lists are the unhashable objects of the model; every other value can be a key.\<close>

definition hashable :: "heap \<Rightarrow> val \<Rightarrow> bool" where
  "hashable h v =
     (case v of
        VRef a \<Rightarrow> (case lookup h a of Some (PyList _) \<Rightarrow> False | _ \<Rightarrow> True)
      | _ \<Rightarrow> True)"

text \<open>
  \<open>{**d, **e}\<close>: the entries of \<open>e\<close> are stored into \<open>d\<close> one by one; a key already
  present keeps its position and takes the new value, a new key goes to the end.
\<close>

definition dict_merge :: "kwargs \<Rightarrow> kwargs \<Rightarrow> kwargs" where
  "dict_merge d e = fold (\<lambda>(k, v). AList.update k v) e d"

definition kwsize :: "kwargs \<Rightarrow> nat" where
  "kwsize kw = size_list (size_prod (\<lambda>_. 0) size) kw"

section \<open>\<open>call_fun_remove_arg\<close> and \<open>maybe_add_argument\<close>\<close>

text \<open>
  \<open>try: del kwargs[arg] except KeyError: pass\<close>. A string key is removed when present;
  any other hashable key is absent (the keys of \<open>**kwargs\<close> are strings), so the
  \<open>KeyError\<close> is swallowed; an unhashable key raises \<open>TypeError\<close>, which is not caught.
\<close>

definition del_item :: "heap \<Rightarrow> kwargs \<Rightarrow> val \<Rightarrow> error + kwargs" where
  "del_item h kwargs arg =
     (case arg of
        VStr a \<Rightarrow> Inr (AList.delete a kwargs)
      | _ \<Rightarrow> if hashable h arg then Inr kwargs
             else Inl (TypeError ''unhashable type''))"

text \<open>
  Calling a callable. A named function is run by the environment. A partial object calls
  its function with the stored positional arguments first and the stored keywords
  overridden by the keywords of the call. \<open>call_fun_remove_arg(*args, fun, arg, **kwargs)\<close>
  binds its two keyword-only parameters from the keywords of the call, the rest being
  \<open>kwargs\<close>, deletes \<open>arg\<close> from \<open>kwargs\<close> and calls \<open>fun(*args, **kwargs)\<close>.
\<close>

function
  call :: "(string \<Rightarrow> pyfun) \<Rightarrow> callable \<Rightarrow> pyfun" and
  call_fun_remove_arg :: "(string \<Rightarrow> pyfun) \<Rightarrow> val list \<Rightarrow> val \<Rightarrow> val \<Rightarrow> kwargs \<Rightarrow> heap \<Rightarrow> val result"
where
  "call app (Named f) args kw h = app f args kw h"
| "call app (Partial func pargs pkw) args kw h =
     call app func (pargs @ args) (dict_merge pkw kw) h"
| "call app CallFunRemoveArg args kw h =
     (case map_of kw ''fun'' of
        None \<Rightarrow> (Inl (TypeError ''missing required keyword-only argument fun''), h)
      | Some fun \<Rightarrow>
          (case map_of kw ''arg'' of
             None \<Rightarrow> (Inl (TypeError ''missing required keyword-only argument arg''), h)
           | Some arg \<Rightarrow>
               call_fun_remove_arg app args fun arg
                 (AList.delete ''arg'' (AList.delete ''fun'' kw)) h))"
| "call_fun_remove_arg app args fun arg kwargs h =
     (case del_item h kwargs arg of
        Inl e \<Rightarrow> (Inl e, h)
      | Inr kwargs' \<Rightarrow>
          (case fun of
             VFun c \<Rightarrow> call app c args kwargs' h
           | _ \<Rightarrow> (Inl (TypeError ''object is not callable''), h)))"
  by pat_completeness auto


lemma kwsize_update: "kwsize (AList.update k v d) \<le> kwsize d + size v + 2"
  by (induction d) (auto simp: kwsize_def)

lemma kwsize_merge: "kwsize (dict_merge d e) \<le> kwsize d + kwsize e"
proof (induction e arbitrary: d)
  case Nil
  then show ?case by (simp add: dict_merge_def kwsize_def)
next
  case (Cons p e)
  obtain k v where p: "p = (k, v)" by (cases p)
  have "kwsize (dict_merge d (p # e)) = kwsize (dict_merge (AList.update k v d) e)"
    by (simp add: dict_merge_def p)
  also have "\<dots> \<le> kwsize (AList.update k v d) + kwsize e" by (rule Cons.IH)
  also have "\<dots> \<le> kwsize d + size v + 2 + kwsize e"
    using kwsize_update[of k v d] by simp
  finally show ?case by (simp add: p kwsize_def)
qed

lemma kwsize_delete: "kwsize (AList.delete k d) \<le> kwsize d"
  by (induction d) (auto simp: kwsize_def)

lemma kwsize_delete_map_of:
  "map_of d k = Some v \<Longrightarrow> size v + kwsize (AList.delete k d) \<le> kwsize d"
proof (induction d)
  case Nil
  then show ?case by simp
next
  case (Cons p d)
  then show ?case using kwsize_delete[of k d]
    by (cases p) (auto simp: kwsize_def split: if_splits)
qed

lemma del_item_size: "del_item h kw arg = Inr kw' \<Longrightarrow> kwsize kw' \<le> kwsize kw"
  using kwsize_delete by (auto simp: del_item_def split: val.splits if_splits)

termination call
proof (relation "measure (\<lambda>x. case x of
          Inl (app, c, args, kw, h) \<Rightarrow> 2 * (size c + kwsize kw) + 1
        | Inr (app, args, fun, arg, kwargs, h) \<Rightarrow> 2 * (size fun + kwsize kwargs))",
       goal_cases)
  case 1
  then show ?case by simp
next
  case (2 app func pargs pkw args kw h)
  then show ?case using kwsize_merge[of pkw kw] by (simp add: kwsize_def)
next
  case (3 app args kw h f a)
  then show ?case
    using kwsize_delete_map_of[of kw "''fun''" f]
      kwsize_delete[of "''arg''" "AList.delete ''fun'' kw"]
    by simp
next
  case (4 app args f arg kwargs h kwargs' c)
  then show ?case using del_item_size[of h kwargs arg kwargs'] by simp
qed

text \<open>
  \<open>fn_accepts_param_name\<close> comes from \<open>pydvl.utils.functional\<close>, whose source is
  missing: it is a parameter of the model.
\<close>

definition maybe_add_argument ::
  "(callable \<Rightarrow> string \<Rightarrow> bool) \<Rightarrow> callable \<Rightarrow> string \<Rightarrow> callable" where
  "maybe_add_argument fn_accepts_param_name fun new_arg =
     (if fn_accepts_param_name fun new_arg then fun
      else Partial CallFunRemoveArg [] [(''fun'', VFun fun), (''arg'', VStr new_arg)])"

section \<open>The metaclass \<open>NoPublicConstructor\<close>\<close>






section \<open>Seeds: \<open>ensure_seed_sequence\<close> and \<open>call_fn_multiple_seeds\<close>\<close>

text \<open>
  The constructor \<open>SeedSequence(seed)\<close> belongs to numpy and is a parameter
  \<open>new_SeedSequence\<close>. A generator is an object with an attribute \<open>bit_generator\<close>, whose
  value has an attribute \<open>seed_seq\<close>.
\<close>

definition ensure_seed_sequence :: "(val \<Rightarrow> heap \<Rightarrow> val result) \<Rightarrow> val \<Rightarrow> heap \<Rightarrow> val result" where
  "ensure_seed_sequence new_SeedSequence seed h =
     (if isinstance h seed ''SeedSequence'' then (Inr seed, h)
      else if isinstance h seed ''Generator'' then
        (case getattr h seed ''bit_generator'' of
           Inl e \<Rightarrow> (Inl e, h)
         | Inr bit_generator \<Rightarrow>
             (case getattr h bit_generator ''seed_seq'' of
                Inl e \<Rightarrow> (Inl e, h)
              | Inr seed_seq \<Rightarrow> (Inr seed_seq, h)))
      else new_SeedSequence seed h)"

text \<open>A plain constructor, for concrete runs: a new object that keeps its entropy.\<close>

definition alloc_SeedSequence :: "val \<Rightarrow> heap \<Rightarrow> val result" where
  "alloc_SeedSequence entropy h =
     (Inr (VRef (length h)), h @ [Obj ''SeedSequence'' [(''entropy'', entropy)]])"

text \<open>
  The constructor of numpy, \<open>SeedSequence(entropy)\<close>. Without entropy it takes fresh
  bits from the operating system (the parameter \<open>os_entropy\<close>); an int must not be
  negative, else it raises \<open>ValueError\<close>; a list of ints that are not negative is
  accepted too, any other value raises \<open>TypeError\<close>. The object allocated before the
  entropy is rejected is unreferenced and is left out of the heap.
\<close>

definition nonneg_int :: "val \<Rightarrow> bool" where
  "nonneg_int v = (case v of VInt n \<Rightarrow> 0 \<le> n | _ \<Rightarrow> False)"

definition is_int :: "val \<Rightarrow> bool" where
  "is_int v = (case v of VInt n \<Rightarrow> True | _ \<Rightarrow> False)"

definition SeedSequence_init :: "int \<Rightarrow> val \<Rightarrow> heap \<Rightarrow> val result" where
  "SeedSequence_init os_entropy entropy h =
     (case entropy of
        VNone \<Rightarrow>
          (Inr (VRef (length h)), h @ [Obj ''SeedSequence'' [(''entropy'', VInt os_entropy)]])
      | VInt n \<Rightarrow>
          if n < 0 then (Inl (ValueError ''expected non-negative integer''), h)
          else (Inr (VRef (length h)), h @ [Obj ''SeedSequence'' [(''entropy'', VInt n)]])
      | VRef a \<Rightarrow>
          (case lookup h a of
             Some (PyList xs) \<Rightarrow>
               if list_all nonneg_int xs
               then (Inr (VRef (length h)), h @ [Obj ''SeedSequence'' [(''entropy'', VRef a)]])
               else if list_all is_int xs
               then (Inl (ValueError ''expected non-negative integer''), h)
               else (Inl (TypeError ''SeedSequence expects int or sequence of ints for entropy''), h)
           | _ \<Rightarrow>
               (Inl (TypeError ''SeedSequence expects int or sequence of ints for entropy''), h))
      | _ \<Rightarrow> (Inl (TypeError ''SeedSequence expects int or sequence of ints for entropy''), h))"

text \<open>
  \<open>copy.deepcopy\<close> belongs to the standard library and is a parameter \<open>deepcopy\<close>; it copies
  the tuple of positional arguments (a list of values) in one pass. The copy of the
  keyword dictionary keeps the keys, which are strings, and copies the values.
\<close>

type_synonym copier = "val list \<Rightarrow> heap \<Rightarrow> val list result"

definition deepcopy_dict :: "copier \<Rightarrow> kwargs \<Rightarrow> heap \<Rightarrow> kwargs result" where
  "deepcopy_dict deepcopy kwargs h =
     (case deepcopy (map snd kwargs) h of
        (Inl e, h') \<Rightarrow> (Inl e, h')
      | (Inr vs, h') \<Rightarrow> (Inr (zip (map fst kwargs) vs), h'))"

text \<open>
  One element of the generator expression:
  \<open>fn(*deepcopy(args), **deepcopy(kwargs), seed=seed)\<close>. The arguments are evaluated from
  left to right; a key \<open>seed\<close> in \<open>kwargs\<close> clashes with the explicit keyword and raises
  \<open>TypeError\<close> before \<open>fn\<close> is entered.
\<close>

definition call_with_seed :: "copier \<Rightarrow> pyfun \<Rightarrow> val list \<Rightarrow> kwargs \<Rightarrow> val \<Rightarrow> heap \<Rightarrow> val result" where
  "call_with_seed deepcopy fn args kwargs seed h =
     (case deepcopy args h of
        (Inl e, h1) \<Rightarrow> (Inl e, h1)
      | (Inr args', h1) \<Rightarrow>
          (case deepcopy_dict deepcopy kwargs h1 of
             (Inl e, h2) \<Rightarrow> (Inl e, h2)
           | (Inr kwargs', h2) \<Rightarrow>
               if ''seed'' \<in> fst ` set kwargs'
               then (Inl (TypeError ''got multiple values for keyword argument seed''), h2)
               else fn args' (kwargs' @ [(''seed'', seed)]) h2))"

text \<open>
  \<open>tuple(... for seed in seeds)\<close>: the elements are computed in order, each in the heap
  the previous one left; the first exception ends the loop.
\<close>

fun call_fn_multiple_seeds ::
  "copier \<Rightarrow> pyfun \<Rightarrow> val list \<Rightarrow> val list \<Rightarrow> kwargs \<Rightarrow> heap \<Rightarrow> val list result" where
  "call_fn_multiple_seeds deepcopy fn args [] kwargs h = (Inr [], h)"
| "call_fn_multiple_seeds deepcopy fn args (seed # seeds) kwargs h =
     (case call_with_seed deepcopy fn args kwargs seed h of
        (Inl e, h') \<Rightarrow> (Inl e, h')
      | (Inr r, h') \<Rightarrow>
          (case call_fn_multiple_seeds deepcopy fn args seeds kwargs h' of
             (Inl e, h'') \<Rightarrow> (Inl e, h'')
           | (Inr rs, h'') \<Rightarrow> (Inr (r # rs), h'')))"


subsection \<open>Functions for concrete runs\<close>

text \<open>A function that returns the seed it was given.\<close>

definition echo_seed :: pyfun where
  "echo_seed args kw h =
     (case map_of kw ''seed'' of
        Some s \<Rightarrow> (Inr s, h)
      | None \<Rightarrow> (Inl (TypeError ''missing required argument seed''), h))"


text \<open>
  A function that draws from the generator passed as its seed: it returns the number of
  draws made so far and counts one more in the generator.
\<close>

definition draw_from_seed :: pyfun where
  "draw_from_seed args kw h =
     (case map_of kw ''seed'' of
        Some (VRef a) \<Rightarrow>
          (case lookup h a of
             Some (Obj c attrs) \<Rightarrow>
               (case map_of attrs ''draws'' of
                  Some (VInt n) \<Rightarrow>
                    (Inr (VInt n), h[a := Obj c (AList.update ''draws'' (VInt (n + 1)) attrs)])
                | _ \<Rightarrow> (Inl (AttributeError ''draws''), h))
           | _ \<Rightarrow> (Inl (AttributeError ''draws''), h))
      | _ \<Rightarrow> (Inl (TypeError ''seed is not a generator''), h))"


text \<open>
  A function that calls its first positional argument, the bound method \<open>append\<close> of a
  list, on its seed: the seed is appended to the list the method belongs to.
\<close>

definition call_append_method :: pyfun where
  "call_append_method args kw h =
     (case (args, map_of kw ''seed'') of
        (VRef m # _, Some (VInt s)) \<Rightarrow>
          (case getattr h (VRef m) ''__self__'' of
             Inr (VRef a) \<Rightarrow>
               (case lookup h a of
                  Some (PyList xs) \<Rightarrow> (Inr VNone, h[a := PyList (xs @ [VInt s])])
                | _ \<Rightarrow> (Inl (AttributeError ''append''), h))
           | _ \<Rightarrow> (Inl (AttributeError ''__self__''), h))
      | _ \<Rightarrow> (Inl (TypeError ''bad arguments''), h))"

text \<open>An environment in which every named function returns a record of its own call.\<close>

definition record_call :: "string \<Rightarrow> pyfun" where
  "record_call f args kw h = (Inr (VFun (Partial (Named f) args kw)), h)"

section \<open>Addresses, reachability and frame conditions\<close>

primrec callable_refs :: "callable \<Rightarrow> nat set" and val_refs :: "val \<Rightarrow> nat set" where
  "callable_refs (Named f) = {}"
| "callable_refs CallFunRemoveArg = {}"
| "callable_refs (Partial func pargs pkw) =
     callable_refs func \<union> \<Union> (set (map val_refs pargs))
       \<union> \<Union> (snd ` set (map (map_prod id val_refs) pkw))"
| "val_refs VNone = {}"
| "val_refs (VInt n) = {}"
| "val_refs (VStr s) = {}"
| "val_refs (VRef a) = {a}"
| "val_refs (VFun c) = callable_refs c"

definition roots :: "val list \<Rightarrow> nat set" where
  "roots vs = \<Union> (val_refs ` set vs)"

definition obj_refs :: "obj \<Rightarrow> nat set" where
  "obj_refs ob = (case ob of PyList xs \<Rightarrow> roots xs | Obj c attrs \<Rightarrow> roots (map snd attrs))"

text \<open>The addresses a program can get to from the addresses \<open>R\<close> by following references.\<close>

inductive_set reach :: "heap \<Rightarrow> nat set \<Rightarrow> nat set" for h :: heap and R :: "nat set" where
  root: "a \<in> R \<Longrightarrow> a \<in> reach h R"
| step: "a \<in> reach h R \<Longrightarrow> a < length h \<Longrightarrow> b \<in> obj_refs (h ! a) \<Longrightarrow> b \<in> reach h R"

text \<open>
  \<open>copy.deepcopy\<close> does not copy everything: functions, classes, built-in functions
  and bound built-in methods, and the objects whose \<open>__deepcopy__\<close> returns the object
  itself, come back as they are. Which objects these are is a predicate \<open>atomic\<close>. The
  existing objects a copy of \<open>vs\<close> may still refer to are the atomic objects that can be
  reached from \<open>vs\<close>.
\<close>

definition kept :: "(obj \<Rightarrow> bool) \<Rightarrow> heap \<Rightarrow> val list \<Rightarrow> nat set" where
  "kept atomic h vs = {b \<in> reach h (roots vs). b < length h \<and> atomic (h ! b)}"






text \<open>
  A function that acts on the heap through its arguments only: with \<open>F\<close> the objects it
  can reach from its positional and keyword arguments, it changes no other existing
  object, and the objects it changed or allocated refer to objects of \<open>F\<close> or to new ones.
\<close>

definition confined :: "pyfun \<Rightarrow> bool" where
  "confined fn \<longleftrightarrow>
     (\<forall>args kw h r h'. fn args kw h = (r, h') \<longrightarrow>
        length h \<le> length h' \<and>
        (\<forall>a < length h. a \<notin> reach h (roots (args @ map snd kw)) \<longrightarrow> h' ! a = h ! a) \<and>
        (\<forall>a < length h'. a \<in> reach h (roots (args @ map snd kw)) \<or> length h \<le> a \<longrightarrow>
           (\<forall>b \<in> obj_refs (h' ! a). b \<in> reach h (roots (args @ map snd kw)) \<or> length h \<le> b)))"

text \<open>
  Another copier for concrete runs: every object of the heap is duplicated, the
  references inside the duplicates and inside the returned values being moved to the
  duplicates.
\<close>

primrec shift_callable :: "nat \<Rightarrow> callable \<Rightarrow> callable" and shift_val :: "nat \<Rightarrow> val \<Rightarrow> val" where
  "shift_callable n (Named f) = Named f"
| "shift_callable n CallFunRemoveArg = CallFunRemoveArg"
| "shift_callable n (Partial func pargs pkw) =
     Partial (shift_callable n func) (map (shift_val n) pargs)
       (map (map_prod id (shift_val n)) pkw)"
| "shift_val n VNone = VNone"
| "shift_val n (VInt i) = VInt i"
| "shift_val n (VStr s) = VStr s"
| "shift_val n (VRef a) = VRef (n + a)"
| "shift_val n (VFun c) = VFun (shift_callable n c)"

definition shift_obj :: "nat \<Rightarrow> obj \<Rightarrow> obj" where
  "shift_obj n ob =
     (case ob of
        PyList xs \<Rightarrow> PyList (map (shift_val n) xs)
      | Obj c attrs \<Rightarrow> Obj c (map (map_prod id (shift_val n)) attrs))"

definition copy_all :: copier where
  "copy_all vs h = (Inr (map (shift_val (length h)) vs), h @ map (shift_obj (length h)) h)"

text \<open>The inputs \<open>ensure_seed_sequence\<close> is meant for, and what a constructor returns.\<close>

definition accepted_seed :: "heap \<Rightarrow> val \<Rightarrow> bool" where
  "accepted_seed h seed =
     (case seed of
        VNone \<Rightarrow> True
      | VInt n \<Rightarrow> True
      | VRef a \<Rightarrow>
          isinstance h seed ''SeedSequence'' \<or>
          (isinstance h seed ''Generator'' \<and>
           (case getattr h seed ''bit_generator'' of
              Inr bit_generator \<Rightarrow>
                (case getattr h bit_generator ''seed_seq'' of
                   Inr seed_seq \<Rightarrow> isinstance h seed_seq ''SeedSequence''
                 | Inl e \<Rightarrow> False)
            | Inl e \<Rightarrow> False))
      | _ \<Rightarrow> False)"

definition constructs :: "string \<Rightarrow> (val \<Rightarrow> heap \<Rightarrow> val result) \<Rightarrow> bool" where
  "constructs c new \<longleftrightarrow> (\<forall>v h r h'. new v h = (Inr r, h') \<longrightarrow> isinstance h' r c)"


section \<open>The sampling estimators\<close>

text \<open>
  Modelled from the spec: the four estimators of \<open>pydvl.value.shapley.montecarlo\<close> are
  called by the tests and their source is missing. The model follows section
  4.3 of the specification. A utility is a function of the set of indices; the state is
  the number of utility evaluations made so far. The random draws are the fields of a
  sampler, the workers are run one after the other, and the standard errors are left out.
\<close>

type_synonym utility = "nat set \<Rightarrow> real"

record sampler =
  draw_permutation :: "nat \<Rightarrow> nat list"
  draw_subset :: "nat \<Rightarrow> nat \<Rightarrow> nat set"
  draw_bernoulli :: "real \<Rightarrow> nat \<Rightarrow> nat set"

datatype estimator = PermutationMC | CombinatorialMC | TruncatedMC | OwenSampling

definition evaluate :: "utility \<Rightarrow> nat set \<Rightarrow> nat \<Rightarrow> real \<times> nat" where
  "evaluate u S k = (u S, Suc k)"

text \<open>Modelled from the spec: the marginal contribution \<open>u(S \<union> {i}) - u(S)\<close>.\<close>

definition marginal :: "utility \<Rightarrow> nat set \<Rightarrow> nat \<Rightarrow> nat \<Rightarrow> real \<times> nat" where
  "marginal u S i k =
     (let (with_i, k1) = evaluate u (insert i S) k;
          (without_i, k2) = evaluate u S k1
      in (with_i - without_i, k2))"

text \<open>
  Modelled from the spec: one permutation is one chain of utility evaluations, each index
  being credited with the change of the running utility when it joins the prefix.
\<close>

fun permutation_walk ::
  "utility \<Rightarrow> nat set \<Rightarrow> real \<Rightarrow> nat list \<Rightarrow> (nat \<Rightarrow> real) \<Rightarrow> nat \<Rightarrow> (nat \<Rightarrow> real) \<times> nat" where
  "permutation_walk u prefix prev [] acc k = (acc, k)"
| "permutation_walk u prefix prev (i # rest) acc k =
     (let (cur, k') = evaluate u (insert i prefix) k
      in permutation_walk u (insert i prefix) cur rest (acc(i := acc i + (cur - prev))) k')"

text \<open>
  Modelled from the spec: the truncated walk stops once the running utility is within the
  tolerance of the utility of the full set; the rest of the permutation is credited nothing.
\<close>

fun truncated_walk ::
  "utility \<Rightarrow> real \<Rightarrow> real \<Rightarrow> nat set \<Rightarrow> real \<Rightarrow> nat list \<Rightarrow> (nat \<Rightarrow> real) \<Rightarrow> nat
     \<Rightarrow> (nat \<Rightarrow> real) \<times> nat" where
  "truncated_walk u u_full tol prefix prev [] acc k = (acc, k)"
| "truncated_walk u u_full tol prefix prev (i # rest) acc k =
     (if \<bar>u_full - prev\<bar> \<le> tol then (acc, k)
      else
        (let (cur, k') = evaluate u (insert i prefix) k
         in truncated_walk u u_full tol (insert i prefix) cur rest
              (acc(i := acc i + (cur - prev))) k'))"

definition permutation_sums ::
  "sampler \<Rightarrow> utility \<Rightarrow> nat \<Rightarrow> nat \<Rightarrow> (nat \<Rightarrow> real) \<times> nat" where
  "permutation_sums rng u m k =
     fold (\<lambda>t (acc, k).
             let (u_empty, k1) = evaluate u {} k
             in permutation_walk u {} u_empty (draw_permutation rng t) acc k1)
       [0..<m] (\<lambda>i. 0, k)"

definition truncated_sums ::
  "sampler \<Rightarrow> real \<Rightarrow> utility \<Rightarrow> nat \<Rightarrow> nat \<Rightarrow> nat \<Rightarrow> (nat \<Rightarrow> real) \<times> nat" where
  "truncated_sums rng tol u n m k =
     (let (u_full, k0) = evaluate u {0..<n} k
      in fold (\<lambda>t (acc, k).
                 let (u_empty, k1) = evaluate u {} k
                 in truncated_walk u u_full tol {} u_empty (draw_permutation rng t) acc k1)
           [0..<m] (\<lambda>i. 0, k0))"

text \<open>
  Modelled from the spec: for each index, random subsets of the other indices, the
  marginal contribution being weighted by \<open>1 / (n * C(n-1, |S|))\<close>.
\<close>

definition combinatorial_sums ::
  "sampler \<Rightarrow> utility \<Rightarrow> nat \<Rightarrow> nat \<Rightarrow> nat \<Rightarrow> (nat \<Rightarrow> real) \<times> nat" where
  "combinatorial_sums rng u n m k =
     fold (\<lambda>(t, i) (acc, k).
             let S = draw_subset rng t i - {i};
                 (d, k') = marginal u S i k
             in (acc(i := acc i + d / (real n * real ((n - 1) choose card S))), k'))
       (List.product [0..<m] [0..<n]) (\<lambda>i. 0, k)"

text \<open>
  Modelled from the spec: for each index and each point \<open>q\<close> of a grid on \<open>[0, 1]\<close>, a
  subset of the other indices in which each is present with probability \<open>q\<close>.
\<close>

definition owen_sums ::
  "sampler \<Rightarrow> utility \<Rightarrow> nat \<Rightarrow> nat \<Rightarrow> nat \<Rightarrow> (nat \<Rightarrow> real) \<times> nat" where
  "owen_sums rng u n m k =
     fold (\<lambda>(j, i) (acc, k).
             let S = draw_bernoulli rng (real j / real m) i - {i};
                 (d, k') = marginal u S i k
             in (acc(i := acc i + d), k'))
       (List.product [0..<m] [0..<n]) (\<lambda>i. 0, k)"

text \<open>
  Modelled from the spec: \<open>estimator(utility, max_iterations, n_jobs, ...)\<close>. The
  parameters are checked first (a zero or negative iteration count and \<open>n_jobs \<le> 0\<close> are
  configuration errors); the value of an index is the mean of what the draws credited it.
\<close>

definition shapley_estimator ::
  "estimator \<Rightarrow> sampler \<Rightarrow> real \<Rightarrow> utility \<Rightarrow> nat \<Rightarrow> int \<Rightarrow> int \<Rightarrow> nat \<Rightarrow> (error + real list) \<times> nat" where
  "shapley_estimator est rng tol u n max_iterations n_jobs k =
     (if max_iterations \<le> 0
      then (Inl (ConfigurationError ''max_iterations must be positive''), k)
      else if n_jobs \<le> 0
      then (Inl (ConfigurationError ''n_jobs must be positive''), k)
      else
        (let m = nat max_iterations;
             (acc, k') =
               (case est of
                  PermutationMC \<Rightarrow> permutation_sums rng u m k
                | CombinatorialMC \<Rightarrow> combinatorial_sums rng u n m k
                | TruncatedMC \<Rightarrow> truncated_sums rng tol u n m k
                | OwenSampling \<Rightarrow> owen_sums rng u n m k)
         in (Inr (map (\<lambda>i. acc i / real m) [0..<n]), k')))"



section \<open>Concrete inputs\<close>

text \<open>
  A heap with a seed sequence at address 0, a bit generator built on it at address 1 and
  a generator using that bit generator at address 2.
\<close>

definition heap0 :: heap where
  "heap0 = [Obj ''SeedSequence'' [(''entropy'', VInt 42)],
            Obj ''PCG64'' [(''seed_seq'', VRef 0)],
            Obj ''Generator'' [(''bit_generator'', VRef 1)]]"


definition example_sampler :: sampler where
  "example_sampler =
     \<lparr>draw_permutation = (\<lambda>t. if even t then [0, 1, 2] else [2, 1, 0]),
      draw_subset = (\<lambda>t i. if even t then {} else {0, 1, 2}),
      draw_bernoulli = (\<lambda>q i. if q < 1 / 2 then {} else {0, 1, 2})\<rparr>"

definition example_utility :: utility where
  "example_utility S = real (card S) * real (card S)"

section \<open>The invariant of the frame proof\<close>


section \<open>The Hoeffding bound\<close>

lemma hoeffding_tail_le_iff:
  assumes d: "0 < delta" and e: "0 < eps" and r: "0 < r"
  shows "hoeffding_tail eps r m \<le> delta
           \<longleftrightarrow> (r\<^sup>2 * ln (2 / delta)) / (2 * eps\<^sup>2) \<le> real m"
proof -
  have e2: "0 < 2 * eps\<^sup>2" and r2: "0 < r\<^sup>2" using e r by simp_all
  have "hoeffding_tail eps r m \<le> delta
          \<longleftrightarrow> exp (- (2 * real m * eps\<^sup>2) / r\<^sup>2) \<le> delta / 2"
    by (simp add: hoeffding_tail_def mult.commute)
  also have "\<dots> \<longleftrightarrow> - (2 * real m * eps\<^sup>2) / r\<^sup>2 \<le> ln (delta / 2)"
    using d by (metis exp_le_cancel_iff exp_ln half_gt_zero)
  also have "\<dots> \<longleftrightarrow> ln (2 / delta) \<le> (2 * real m * eps\<^sup>2) / r\<^sup>2"
    using d by (simp add: ln_div) linarith
  also have "\<dots> \<longleftrightarrow> r\<^sup>2 * ln (2 / delta) \<le> real m * (2 * eps\<^sup>2)"
    using r2 by (simp add: pos_le_divide_eq mult.commute mult.left_commute)
  also have "\<dots> \<longleftrightarrow> (r\<^sup>2 * ln (2 / delta)) / (2 * eps\<^sup>2) \<le> real m"
    using e2 by (simp add: pos_divide_le_eq)
  finally show ?thesis .
qed

lemma lower_bound_hoeffding_pos:
  assumes d: "0 < delta" "delta < 2" and e: "0 < eps" and r: "0 < r"
  shows "0 < lower_bound_hoeffding delta eps r"
proof -
  have "1 < 2 / delta" using d by simp
  then have "0 < ln (2 / delta)" by (rule ln_gt_zero)
  then have "0 < (r\<^sup>2 * ln (2 / delta)) / (2 * eps\<^sup>2)" using e r by simp
  then show ?thesis by (simp add: lower_bound_hoeffding_def)
qed

lemma lower_bound_hoeffding_antimono_eps:
  assumes "0 < d" "d \<le> 2" "0 < e1" "e1 \<le> e2"
  shows "lower_bound_hoeffding d e2 r \<le> lower_bound_hoeffding d e1 r"
proof -
  have "1 \<le> 2 / d" using assms by simp
  then have "0 \<le> ln (2 / d)" by (rule ln_ge_zero)
  then have l: "0 \<le> r\<^sup>2 * ln (2 / d)" by simp
  have "e1\<^sup>2 \<le> e2\<^sup>2" using assms by (simp add: power_mono)
  then have "(r\<^sup>2 * ln (2 / d)) / (2 * e2\<^sup>2) \<le> (r\<^sup>2 * ln (2 / d)) / (2 * e1\<^sup>2)"
    using l assms by (intro divide_left_mono) simp_all
  then show ?thesis unfolding lower_bound_hoeffding_def by (rule ceiling_mono)
qed

lemma lower_bound_hoeffding_antimono_delta:
  assumes "0 < d1" "d1 \<le> d2"
  shows "lower_bound_hoeffding d2 e r \<le> lower_bound_hoeffding d1 e r"
proof -
  have "2 / d2 \<le> 2 / d1" using assms by (simp add: frac_le)
  moreover have "0 < 2 / d2" using assms by simp
  ultimately have "ln (2 / d2) \<le> ln (2 / d1)" by (simp add: ln_mono)
  then have "r\<^sup>2 * ln (2 / d2) \<le> r\<^sup>2 * ln (2 / d1)" by (simp add: mult_left_mono)
  then have "(r\<^sup>2 * ln (2 / d2)) / (2 * e\<^sup>2) \<le> (r\<^sup>2 * ln (2 / d1)) / (2 * e\<^sup>2)"
    by (simp add: divide_right_mono)
  then show ?thesis unfolding lower_bound_hoeffding_def by (rule ceiling_mono)
qed

text \<open>Bounds on the exponential from its Maclaurin expansion, to evaluate logarithms.\<close>

lemma exp_ge_partial_sum:
  fixes x :: real
  assumes "0 \<le> x"
  shows "(\<Sum>m<n. (x ^ m) / fact m) \<le> exp x"
proof -
  obtain t where t: "exp x = (\<Sum>m<n. (x ^ m) / fact m) + (exp t / fact n) * x ^ n"
    using Maclaurin_exp_le[of x n] by blast
  have "0 \<le> (exp t / fact n) * x ^ n" using assms by simp
  with t show ?thesis by linarith
qed

lemma exp_le_partial_sum:
  fixes x :: real
  assumes "0 \<le> x" "x \<le> 1"
  shows "exp x \<le> (\<Sum>m<n. (x ^ m) / fact m) + 3 * x ^ n / fact n"
proof -
  obtain t where t: "\<bar>t\<bar> \<le> \<bar>x\<bar>"
    "exp x = (\<Sum>m<n. (x ^ m) / fact m) + (exp t / fact n) * x ^ n"
    using Maclaurin_exp_le[of x n] by blast
  have "t \<le> 1" using t(1) assms by linarith
  then have "exp t \<le> exp 1" by simp
  then have "exp t \<le> 3" using exp_le by linarith
  then have "exp t * (x ^ n / fact n) \<le> 3 * (x ^ n / fact n)"
    using assms by (intro mult_right_mono) simp_all
  with t show ?thesis by (simp add: field_simps)
qed

lemma exp_53_tenths: "200 \<le> exp (53/10 :: real)"
proof -
  have "(\<Sum>m<6. ((53/100::real) ^ m) / fact m) \<le> exp (53/100)"
    by (rule exp_ge_partial_sum) simp
  then have "(16988 / 10000 :: real) \<le> exp (53/100)"
    by (simp add: lessThan_nat_numeral fact_numeral power_divide)
  then have "(16988 / 10000 :: real) ^ 10 \<le> exp (53/100) ^ 10"
    by (intro power_mono) simp_all
  moreover have "exp (53/100 :: real) ^ 10 = exp (53/10)"
    by (simp flip: exp_of_nat_mult)
  moreover have "(200::real) \<le> (16988 / 10000) ^ 10" by (simp add: power_divide)
  ultimately show ?thesis by linarith
qed

lemma exp_528_hundredths: "exp (528/100 :: real) < 200"
proof -
  have "exp (528/1000::real)
          \<le> (\<Sum>m<5. ((528/1000::real) ^ m) / fact m) + 3 * (528/1000) ^ 5 / fact 5"
    by (rule exp_le_partial_sum) simp_all
  then have "exp (528/1000) \<le> (1697 / 1000 :: real)"
    by (simp add: lessThan_nat_numeral fact_numeral power_divide)
  then have "exp (528/1000) ^ 10 \<le> (1697 / 1000 :: real) ^ 10"
    by (intro power_mono) simp_all
  moreover have "exp (528/1000 :: real) ^ 10 = exp (528/100)"
    by (simp flip: exp_of_nat_mult)
  moreover have "(1697 / 1000 :: real) ^ 10 < 200" by (simp add: power_divide)
  ultimately show ?thesis by linarith
qed

lemma lower_bound_hoeffding_example: "lower_bound_hoeffding (1/100) (1/10) 1 = 265"
proof -
  have "ln (200::real) \<le> 53/10"
  proof -
    have "ln (200::real) \<le> ln (exp (53/10))" using exp_53_tenths by (intro ln_mono) simp_all
    then show ?thesis by simp
  qed
  moreover have "528/100 < ln (200::real)"
    using exp_528_hundredths by (subst exp_less_cancel_iff[symmetric]) simp
  ultimately show ?thesis
    unfolding lower_bound_hoeffding_def ceiling_eq_iff by (simp add: power_divide)
qed

lemma lower_bound_hoeffding_half: "lower_bound_hoeffding (1/2) 1 1 = 1"
proof -
  have "ln (4::real) = 2 * ln 2"
    using ln_realpow[of 2 2] by simp
  moreover have "ln (2::real) < 1" by (rule ln_2_less_1)
  moreover have "0 < ln (2::real)" by simp
  ultimately show ?thesis
    unfolding lower_bound_hoeffding_def ceiling_eq_iff by simp
qed

text \<open>
  Claim C1. For every \<open>delta\<close> in \<open>(0, 1)\<close>, every \<open>eps > 0\<close> and every
  \<open>score_range > 0\<close>, \<open>lower_bound_hoeffding\<close> returns
  \<open>ceil((score_range^2 * ln(2/delta)) / (2 * eps^2))\<close>, and this positive integer is the
  minimum sample count for which the two-sided Hoeffding tail, the bound on the
  probability that the mean of that many samples is further than \<open>eps\<close> from the true
  value, is at most \<open>delta\<close>: the tail is at most \<open>delta\<close> for exactly the sample counts
  from the returned one on.
\<close>

theorem C1_lower_bound_hoeffding_minimum:
  assumes "0 < delta" "delta < 1" "0 < eps" "0 < score_range"
  shows "lower_bound_hoeffding delta eps score_range
           = \<lceil>(score_range\<^sup>2 * ln (2 / delta)) / (2 * eps\<^sup>2)\<rceil>
       \<and> 0 < lower_bound_hoeffding delta eps score_range
       \<and> (\<forall>m::nat. hoeffding_tail eps score_range m \<le> delta
             \<longleftrightarrow> lower_bound_hoeffding delta eps score_range \<le> int m)"
proof -
  have "\<And>m::nat. hoeffding_tail eps score_range m \<le> delta
             \<longleftrightarrow> lower_bound_hoeffding delta eps score_range \<le> int m"
    using hoeffding_tail_le_iff[OF assms(1) assms(3) assms(4)]
    by (simp add: lower_bound_hoeffding_def ceiling_le_iff)
  moreover have "0 < lower_bound_hoeffding delta eps score_range"
    using lower_bound_hoeffding_pos[of delta eps score_range] assms by simp
  ultimately show ?thesis by (simp add: lower_bound_hoeffding_def)
qed

theorem C1_lower_bound_hoeffding_minimum_witness:
  "(0::real) < 1/2 \<and> (1/2::real) < 1 \<and> (0::real) < 1
   \<and> lower_bound_hoeffding (1/2) 1 1 = 1
   \<and> (\<forall>m::nat. hoeffding_tail 1 1 m \<le> 1/2 \<longleftrightarrow> 1 \<le> int m)"
  using C1_lower_bound_hoeffding_minimum[of "1/2" 1 1] lower_bound_hoeffding_half
  by simp

text \<open>
  Claim C7. \<open>lower_bound_hoeffding(delta=0.01, eps=0.1, score_range=1)\<close> returns a
  positive integer (it is 265), and for every fixed \<open>score_range\<close> the returned value does
  not grow when \<open>eps\<close> grows or when \<open>delta\<close> grows (the ceiling makes it a step function,
  so it decreases in the weak sense).
\<close>

theorem C7_lower_bound_hoeffding_monotone:
  "0 < lower_bound_hoeffding (1/100) (1/10) 1
   \<and> lower_bound_hoeffding (1/100) (1/10) 1 = 265
   \<and> (\<forall>score_range delta eps1 eps2.
         0 < delta \<and> delta < 1 \<and> 0 < eps1 \<and> eps1 \<le> eps2 \<longrightarrow>
         lower_bound_hoeffding delta eps2 score_range
           \<le> lower_bound_hoeffding delta eps1 score_range)
   \<and> (\<forall>score_range eps delta1 delta2.
         0 < eps \<and> 0 < delta1 \<and> delta1 \<le> delta2 \<and> delta2 < 1 \<longrightarrow>
         lower_bound_hoeffding delta2 eps score_range
           \<le> lower_bound_hoeffding delta1 eps score_range)"
  using lower_bound_hoeffding_example lower_bound_hoeffding_antimono_eps
    lower_bound_hoeffding_antimono_delta
  by simp

theorem C7_lower_bound_hoeffding_monotone_witness:
  "lower_bound_hoeffding (1/100) (2/10) 1 \<le> lower_bound_hoeffding (1/100) (1/10) 1
   \<and> lower_bound_hoeffding (1/10) (1/10) 1 \<le> lower_bound_hoeffding (1/100) (1/10) 1
   \<and> lower_bound_hoeffding (1/100) (1/10) 1 = 265"
proof -
  have "(0::real) < 1/100 \<and> (1/100::real) < 1 \<and> (0::real) < 1/10 \<and> (1/10::real) \<le> 2/10"
    by simp
  moreover have "(0::real) < 1/10 \<and> (0::real) < 1/100 \<and> (1/100::real) \<le> 1/10 \<and> (1/10::real) < 1"
    by simp
  ultimately show ?thesis
    using C7_lower_bound_hoeffding_monotone by blast
qed


section \<open>\<open>maybe_add_argument\<close>\<close>

lemma update_append_fresh:
  "k \<notin> fst ` set d \<Longrightarrow> AList.update k v d = d @ [(k, v)]"
  by (induction d) auto

lemma fold_update_fresh:
  "distinct (map fst e) \<Longrightarrow> fst ` set d \<inter> fst ` set e = {} \<Longrightarrow>
   fold (\<lambda>(k, v). AList.update k v) e d = d @ e"
proof (induction e arbitrary: d)
  case Nil
  then show ?case by simp
next
  case (Cons p e)
  obtain k v where p: "p = (k, v)" by (cases p)
  from Cons.prems p have k: "k \<notin> fst ` set d" by auto
  have "fold (\<lambda>(k, v). AList.update k v) (p # e) d
          = fold (\<lambda>(k, v). AList.update k v) e (d @ [(k, v)])"
    using k by (simp add: p update_append_fresh)
  also have "\<dots> = (d @ [(k, v)]) @ e"
    using Cons.prems p by (intro Cons.IH) (auto simp: image_Un)
  finally show ?case by (simp add: p)
qed

lemma delete_absent: "k \<notin> fst ` set d \<Longrightarrow> AList.delete k d = d"
  by (induction d) auto

lemma wrapper_forwards:
  assumes "distinct (map fst kw)" "''fun'' \<notin> fst ` set kw" "''arg'' \<notin> fst ` set kw"
  shows "call app (Partial CallFunRemoveArg [] [(''fun'', VFun fun), (''arg'', VStr new_arg)]) args kw h
           = call app fun args (AList.delete new_arg kw) h"
proof -
  have m: "dict_merge [(''fun'', VFun fun), (''arg'', VStr new_arg)] kw
             = [(''fun'', VFun fun), (''arg'', VStr new_arg)] @ kw"
    unfolding dict_merge_def using assms by (intro fold_update_fresh) auto
  have d: "AList.delete ''arg'' (AList.delete ''fun'' kw) = kw"
    using assms by (simp add: delete_absent)
  show ?thesis
    by (simp add: m d del_item_def)
qed

text \<open>
  When the keywords of the call are distinct and none of them is \<open>fun\<close> or \<open>arg\<close>, the
  wrapper does what its documentation says: it calls \<open>fun\<close> with the same positional
  arguments and the same keywords without \<open>new_arg\<close>.
\<close>

lemma maybe_add_argument_forwards:
  assumes "distinct (map fst kw)" "''fun'' \<notin> fst ` set kw" "''arg'' \<notin> fst ` set kw"
  shows "(fn_accepts_param_name fun new_arg \<longrightarrow>
           maybe_add_argument fn_accepts_param_name fun new_arg = fun)
       \<and> (\<not> fn_accepts_param_name fun new_arg \<longrightarrow>
           call app (maybe_add_argument fn_accepts_param_name fun new_arg) args kw h
             = call app fun args (AList.delete new_arg kw) h)
       \<and> (\<not> fn_accepts_param_name fun new_arg \<and> new_arg \<notin> fst ` set kw \<longrightarrow>
           call app (maybe_add_argument fn_accepts_param_name fun new_arg) args kw h
             = call app fun args kw h)"
  using wrapper_forwards[OF assms] by (simp add: maybe_add_argument_def delete_absent)

lemma maybe_add_argument_example:
  "call record_call (maybe_add_argument (\<lambda>f a. False) (Named ''f'') ''seed'')
       [VInt 0] [(''x'', VInt 5), (''seed'', VInt 1)] []
     = record_call ''f'' [VInt 0] [(''x'', VInt 5)] []"
  by (simp add: maybe_add_argument_def dict_merge_def del_item_def record_call_def)

text \<open>
  Claim C8. For a function that does not accept \<open>new_arg\<close>, the wrapper called with
  \<open>new_arg=v\<close> should return \<open>fun\<close> applied to the same positional arguments and the
  same keyword arguments without \<open>new_arg\<close>. The code does not do so when a keyword of
  the call is named \<open>arg\<close> or \<open>fun\<close>, the names of the keyword-only parameters of
  \<open>call_fun_remove_arg\<close>: the keywords of the call override those stored in the partial
  object. With \<open>new_arg = seed\<close>, the call \<open>wrapper(0, seed=1, arg='q')\<close> runs
  \<open>f(0, seed=1)\<close> where the claim has \<open>f(0, arg='q')\<close>, and
  \<open>wrapper(0, seed=1, fun=g)\<close> runs \<open>g(0)\<close>, not \<open>f\<close>.
\<close>

theorem C8_wrapper_captures_keywords:
  "call record_call (maybe_add_argument (\<lambda>f a. False) (Named ''f'') ''seed'')
       [VInt 0] [(''seed'', VInt 1), (''arg'', VStr ''q'')] []
     = record_call ''f'' [VInt 0] [(''seed'', VInt 1)] []
   \<and> call record_call (Named ''f'') [VInt 0]
       (AList.delete ''seed'' [(''seed'', VInt 1), (''arg'', VStr ''q'')]) []
     = record_call ''f'' [VInt 0] [(''arg'', VStr ''q'')] []
   \<and> record_call ''f'' [VInt 0] [(''seed'', VInt 1)] [] 
       \<noteq> record_call ''f'' [VInt 0] [(''arg'', VStr ''q'')] []
   \<and> call record_call (maybe_add_argument (\<lambda>f a. False) (Named ''f'') ''seed'')
       [VInt 0] [(''seed'', VInt 1), (''fun'', VFun (Named ''g''))] []
     = record_call ''g'' [VInt 0] [] []"
  by (simp add: maybe_add_argument_def dict_merge_def del_item_def record_call_def)


section \<open>\<open>NoPublicConstructor\<close>\<close>





section \<open>The estimators\<close>

lemma shapley_estimator_example:
  "shapley_estimator PermutationMC example_sampler 0 example_utility 3 2 1 0
     = (Inr [3, 3, 3], 8)"
  by (simp add: shapley_estimator_def permutation_sums_def example_sampler_def
      example_utility_def evaluate_def upt_rec numeral_nat)

lemma sum_fun_upd_add:
  fixes acc :: "nat \<Rightarrow> real"
  assumes "finite I" "i \<in> I"
  shows "sum (acc(i := acc i + d)) I = sum acc I + d"
proof -
  have "sum (acc(i := acc i + d)) I = (acc i + d) + sum (acc(i := acc i + d)) (I - {i})"
    using assms by (simp add: sum.remove)
  also have "sum (acc(i := acc i + d)) (I - {i}) = sum acc (I - {i})"
    by (rule sum.cong) auto
  also have "(acc i + d) + sum acc (I - {i}) = sum acc I + d"
    using assms by (simp add: sum.remove)
  finally show ?thesis .
qed

lemma permutation_walk_sum:
  assumes "finite I"
  shows "permutation_walk u prefix prev p acc k = (acc', k') \<Longrightarrow> set p \<subseteq> I \<Longrightarrow>
         prev = u prefix \<Longrightarrow>
         sum acc' I = sum acc I + (u (prefix \<union> set p) - u prefix) \<and> k' = k + length p"
proof (induction p arbitrary: prefix prev acc k)
  case Nil
  then show ?case by simp
next
  case (Cons i rest)
  let ?acc1 = "acc(i := acc i + (u (insert i prefix) - prev))"
  from Cons.prems(1)
  have run: "permutation_walk u (insert i prefix) (u (insert i prefix)) rest ?acc1 (Suc k) = (acc', k')"
    by (simp add: evaluate_def)
  from Cons.prems(2) have i: "i \<in> I" and rest: "set rest \<subseteq> I" by simp_all
  have "sum acc' I = sum ?acc1 I + (u (insert i prefix \<union> set rest) - u (insert i prefix))
        \<and> k' = Suc k + length rest"
    by (rule Cons.IH[OF run rest refl])
  moreover have "sum ?acc1 I = sum acc I + (u (insert i prefix) - prev)"
    by (rule sum_fun_upd_add[OF assms i])
  ultimately show ?case using Cons.prems(3) by simp
qed

lemma permutation_sums_sum:
  assumes perm: "\<And>t. set (draw_permutation rng t) = {0..<n}"
  shows "permutation_sums rng u m k = (acc, k') \<Longrightarrow>
         sum acc {0..<n} = real m * (u {0..<n} - u {})"
proof (induction m arbitrary: acc k')
  case 0
  then show ?case by (auto simp: permutation_sums_def)
next
  case (Suc m)
  obtain acc0 k0 where 0: "permutation_sums rng u m k = (acc0, k0)"
    by (cases "permutation_sums rng u m k")
  have ih: "sum acc0 {0..<n} = real m * (u {0..<n} - u {})"
    by (rule Suc.IH[OF 0])
  from Suc.prems 0
  have w: "permutation_walk u {} (u {}) (draw_permutation rng m) acc0 (Suc k0) = (acc, k')"
    by (simp add: permutation_sums_def evaluate_def)
  have "sum acc {0..<n} = sum acc0 {0..<n} + (u ({} \<union> set (draw_permutation rng m)) - u {})
        \<and> k' = Suc k0 + length (draw_permutation rng m)"
    by (rule permutation_walk_sum[OF _ w]) (simp_all add: perm)
  then show ?case using ih perm by (simp add: algebra_simps)
qed

text \<open>
  Each permutation credits, in total, the utility of the full set minus that of the empty
  set, so the values of the permutation estimator add up to exactly that difference
  whatever the number of iterations. The other estimators have no such identity: their
  sum depends on the subsets drawn.
\<close>

lemma permutation_estimator_efficiency:
  assumes perm: "\<And>t. set (draw_permutation rng t) = {0..<n}"
    and run: "shapley_estimator PermutationMC rng tol u n max_iterations n_jobs k = (Inr values, k')"
  shows "sum_list values = u {0..<n} - u {}"
proof -
  from run have pos: "0 < max_iterations"
    by (auto simp: shapley_estimator_def split: if_splits)
  obtain acc k1 where s: "permutation_sums rng u (nat max_iterations) k = (acc, k1)"
    by (cases "permutation_sums rng u (nat max_iterations) k")
  from run pos s have v: "values = map (\<lambda>i. acc i / real (nat max_iterations)) [0..<n]"
    by (auto simp: shapley_estimator_def split: if_splits)
  have "sum_list values = (\<Sum>i = 0..<n. acc i / real (nat max_iterations))"
    unfolding v by (simp add: interv_sum_list_conv_sum_set_nat)
  also have "\<dots> = sum acc {0..<n} / real (nat max_iterations)"
    by (simp add: sum_divide_distrib)
  also have "\<dots> = u {0..<n} - u {}"
    using permutation_sums_sum[OF perm s] pos by simp
  finally show ?thesis .
qed

text \<open>
  Claim C6. For every estimator (permutation, combinatorial, truncated permutation, Owen)
  called with \<open>max_iterations = 0\<close>, the call is rejected with a configuration error
  before any sampling: the count of utility evaluations is what it was.
\<close>

theorem C6_zero_iterations_rejected:
  "shapley_estimator est rng tol u n 0 n_jobs k =
     (Inl (ConfigurationError ''max_iterations must be positive''), k)"
  by (simp add: shapley_estimator_def)

section \<open>\<open>ensure_seed_sequence\<close>\<close>

lemma alloc_SeedSequence_constructs: "constructs ''SeedSequence'' alloc_SeedSequence"
  by (auto simp: constructs_def alloc_SeedSequence_def isinstance_def lookup_def)

lemma isinstance_class_unique:
  "isinstance h v c \<Longrightarrow> isinstance h v c' \<Longrightarrow> c' = c"
  by (auto simp: isinstance_def split: val.splits option.splits obj.splits)

lemma SeedSequence_init_constructs: "constructs ''SeedSequence'' (SeedSequence_init os_entropy)"
  unfolding constructs_def
  by (auto simp: SeedSequence_init_def isinstance_def lookup_def
      split: val.splits option.splits obj.splits if_splits)

text \<open>
  Claim C2, as stated: every int gives a seed sequence. The else branch hands the seed to
  the constructor of numpy, which rejects a negative int: \<open>ensure_seed_sequence(-1)\<close>
  raises \<open>ValueError\<close> and returns nothing.
\<close>

theorem C2_negative_int_counterexample:
  "accepted_seed heap0 (VInt (- 1))
   \<and> ensure_seed_sequence (SeedSequence_init 0) (VInt (- 1)) heap0
     = (Inl (ValueError ''expected non-negative integer''), heap0)"
  by (simp add: accepted_seed_def ensure_seed_sequence_def SeedSequence_init_def isinstance_def)

text \<open>
  Claim C2, amended. For every seed that is an int that is not negative, a generator, a
  seed sequence or \<open>None\<close>, \<open>ensure_seed_sequence\<close> returns a seed sequence object: a
  seed sequence is returned as it is, in the heap as it is; a generator gives the seed
  sequence of its bit generator; an int that is not negative, or \<open>None\<close>, gives a newly
  constructed seed sequence over that value (over fresh entropy for \<open>None\<close>), at an
  address that was free. A negative int raises \<open>ValueError\<close>.
\<close>

theorem C2_ensure_seed_sequence_cases:
  assumes "accepted_seed h seed"
  shows "(isinstance h seed ''SeedSequence'' \<longrightarrow>
            ensure_seed_sequence (SeedSequence_init os_entropy) seed h = (Inr seed, h))
       \<and> (isinstance h seed ''Generator'' \<longrightarrow>
            (\<exists>bit_generator seed_seq.
               getattr h seed ''bit_generator'' = Inr bit_generator \<and>
               getattr h bit_generator ''seed_seq'' = Inr seed_seq \<and>
               isinstance h seed_seq ''SeedSequence'' \<and>
               ensure_seed_sequence (SeedSequence_init os_entropy) seed h = (Inr seed_seq, h)))
       \<and> (seed = VNone \<longrightarrow>
            ensure_seed_sequence (SeedSequence_init os_entropy) seed h
              = (Inr (VRef (length h)),
                 h @ [Obj ''SeedSequence'' [(''entropy'', VInt os_entropy)]]))
       \<and> (\<forall>n. seed = VInt n \<and> 0 \<le> n \<longrightarrow>
            ensure_seed_sequence (SeedSequence_init os_entropy) seed h
              = (Inr (VRef (length h)), h @ [Obj ''SeedSequence'' [(''entropy'', VInt n)]]))
       \<and> (\<forall>n. seed = VInt n \<and> n < 0 \<longrightarrow>
            ensure_seed_sequence (SeedSequence_init os_entropy) seed h
              = (Inl (ValueError ''expected non-negative integer''), h))
       \<and> ((\<forall>n. seed = VInt n \<longrightarrow> 0 \<le> n) \<longrightarrow>
            (\<exists>r h'. ensure_seed_sequence (SeedSequence_init os_entropy) seed h = (Inr r, h')
               \<and> isinstance h' r ''SeedSequence''))"
proof -
  let ?e = "ensure_seed_sequence (SeedSequence_init os_entropy) seed h"
  have 1: "?e = (Inr seed, h)" if "isinstance h seed ''SeedSequence''"
    using that by (simp add: ensure_seed_sequence_def)
  have 2: "\<exists>bit_generator seed_seq.
               getattr h seed ''bit_generator'' = Inr bit_generator \<and>
               getattr h bit_generator ''seed_seq'' = Inr seed_seq \<and>
               isinstance h seed_seq ''SeedSequence'' \<and> ?e = (Inr seed_seq, h)"
    if g: "isinstance h seed ''Generator''"
  proof -
    from g have n: "\<not> isinstance h seed ''SeedSequence''"
      using isinstance_class_unique[of h seed "''Generator''" "''SeedSequence''"] by auto
    from g obtain a where a: "seed = VRef a" by (auto simp: isinstance_def split: val.splits)
    from assms g n a obtain bg ss where
      "getattr h seed ''bit_generator'' = Inr bg" "getattr h bg ''seed_seq'' = Inr ss"
      "isinstance h ss ''SeedSequence''"
      by (auto simp: accepted_seed_def split: sum.splits)
    then show ?thesis using g n by (simp add: ensure_seed_sequence_def)
  qed
  have 3: "?e = (Inr (VRef (length h)), h @ [Obj ''SeedSequence'' [(''entropy'', VInt os_entropy)]])"
    if "seed = VNone"
    using that by (simp add: ensure_seed_sequence_def SeedSequence_init_def isinstance_def)
  have 4: "?e = (Inr (VRef (length h)), h @ [Obj ''SeedSequence'' [(''entropy'', VInt n)]])"
    if "seed = VInt n \<and> 0 \<le> n" for n
    using that by (simp add: ensure_seed_sequence_def SeedSequence_init_def isinstance_def)
  have 5: "?e = (Inl (ValueError ''expected non-negative integer''), h)"
    if "seed = VInt n \<and> n < 0" for n
    using that by (simp add: ensure_seed_sequence_def SeedSequence_init_def isinstance_def)
  have new: "isinstance (h @ [Obj ''SeedSequence'' x]) (VRef (length h)) ''SeedSequence''" for x
    by (simp add: isinstance_def lookup_def)
  have 6: "\<exists>r h'. ?e = (Inr r, h') \<and> isinstance h' r ''SeedSequence''"
    if nn: "\<forall>n. seed = VInt n \<longrightarrow> 0 \<le> n"
  proof (cases seed)
    case VNone
    then show ?thesis using 3 new by blast
  next
    case (VInt n)
    then show ?thesis using 4[of n] nn new by blast
  next
    case (VStr s)
    with assms show ?thesis by (simp add: accepted_seed_def)
  next
    case (VRef a)
    with assms have "isinstance h seed ''SeedSequence'' \<or> isinstance h seed ''Generator''"
      by (auto simp: accepted_seed_def)
    then show ?thesis using 1 2 by blast
  next
    case (VFun c)
    with assms show ?thesis by (simp add: accepted_seed_def)
  qed
  from 1 2 3 4 5 6 show ?thesis by blast
qed

theorem C2_ensure_seed_sequence_cases_witness:
  "ensure_seed_sequence (SeedSequence_init 11) (VRef 0) heap0 = (Inr (VRef 0), heap0)
   \<and> ensure_seed_sequence (SeedSequence_init 11) (VRef 2) heap0 = (Inr (VRef 0), heap0)
   \<and> ensure_seed_sequence (SeedSequence_init 11) (VInt 7) heap0
       = (Inr (VRef 3), heap0 @ [Obj ''SeedSequence'' [(''entropy'', VInt 7)]])
   \<and> ensure_seed_sequence (SeedSequence_init 11) VNone heap0
       = (Inr (VRef 3), heap0 @ [Obj ''SeedSequence'' [(''entropy'', VInt 11)]])
   \<and> ensure_seed_sequence (SeedSequence_init 11) (VInt (- 1)) heap0
       = (Inl (ValueError ''expected non-negative integer''), heap0)"
proof -
  have a0: "accepted_seed heap0 (VRef 0)" and a2: "accepted_seed heap0 (VRef 2)"
    and a7: "accepted_seed heap0 (VInt 7)" and an: "accepted_seed heap0 VNone"
    and am: "accepted_seed heap0 (VInt (- 1))"
    by (simp_all add: accepted_seed_def heap0_def isinstance_def lookup_def getattr_def)
  have i0: "isinstance heap0 (VRef 0) ''SeedSequence''"
    and i2: "isinstance heap0 (VRef 2) ''Generator''"
    by (simp_all add: heap0_def isinstance_def lookup_def)
  have g: "getattr heap0 (VRef 2) ''bit_generator'' = Inr (VRef 1)"
     "getattr heap0 (VRef 1) ''seed_seq'' = Inr (VRef 0)"
    by (simp_all add: heap0_def getattr_def lookup_def)
  have l: "length heap0 = 3" by (simp add: heap0_def)
  have t0: "ensure_seed_sequence (SeedSequence_init 11) (VRef 0) heap0 = (Inr (VRef 0), heap0)"
    using C2_ensure_seed_sequence_cases[OF a0, of 11] i0 by blast
  have t2: "ensure_seed_sequence (SeedSequence_init 11) (VRef 2) heap0 = (Inr (VRef 0), heap0)"
    using C2_ensure_seed_sequence_cases[OF a2, of 11] i2 g by auto
  have t7: "ensure_seed_sequence (SeedSequence_init 11) (VInt 7) heap0
       = (Inr (VRef (length heap0)), heap0 @ [Obj ''SeedSequence'' [(''entropy'', VInt 7)]])"
    using C2_ensure_seed_sequence_cases[OF a7, of 11] by simp
  have tn: "ensure_seed_sequence (SeedSequence_init 11) VNone heap0
       = (Inr (VRef (length heap0)), heap0 @ [Obj ''SeedSequence'' [(''entropy'', VInt 11)]])"
    using C2_ensure_seed_sequence_cases[OF an, of 11] by simp
  have tm: "ensure_seed_sequence (SeedSequence_init 11) (VInt (- 1)) heap0
       = (Inl (ValueError ''expected non-negative integer''), heap0)"
    using C2_ensure_seed_sequence_cases[OF am, of 11] by simp
  show ?thesis using t0 t2 t7 tn tm l by simp
qed

text \<open>
  Claim C10. \<open>ensure_seed_sequence\<close> is idempotent: applied to its own result, in the
  heap it left, it returns the very same object (the same address) and leaves the heap
  as it is.
\<close>

theorem C10_ensure_seed_sequence_idempotent:
  assumes "accepted_seed h seed" and "constructs ''SeedSequence'' new_SeedSequence"
    and "ensure_seed_sequence new_SeedSequence seed h = (Inr r, h')"
  shows "ensure_seed_sequence new_SeedSequence r h' = (Inr r, h')"
proof -
  have "isinstance h' r ''SeedSequence''"
  proof (cases "isinstance h seed ''SeedSequence''")
    case True
    with assms(3) show ?thesis by (simp add: ensure_seed_sequence_def)
  next
    case False
    note n = this
    show ?thesis
    proof (cases "isinstance h seed ''Generator''")
      case True
      then obtain a where a: "seed = VRef a" by (auto simp: isinstance_def split: val.splits)
      from assms(1,3) True n a show ?thesis
        by (auto simp: accepted_seed_def ensure_seed_sequence_def split: sum.splits)
    next
      case False
      with n assms(3) have "new_SeedSequence seed h = (Inr r, h')"
        by (simp add: ensure_seed_sequence_def)
      with assms(2) show ?thesis by (auto simp: constructs_def)
    qed
  qed
  then show ?thesis by (simp add: ensure_seed_sequence_def)
qed

theorem C10_ensure_seed_sequence_idempotent_witness:
  "ensure_seed_sequence alloc_SeedSequence (VInt 7) heap0
     = (Inr (VRef 3), heap0 @ [Obj ''SeedSequence'' [(''entropy'', VInt 7)]])
   \<and> ensure_seed_sequence alloc_SeedSequence (VRef 3) (heap0 @ [Obj ''SeedSequence'' [(''entropy'', VInt 7)]])
     = (Inr (VRef 3), heap0 @ [Obj ''SeedSequence'' [(''entropy'', VInt 7)]])
   \<and> ensure_seed_sequence alloc_SeedSequence (VRef 2) heap0 = (Inr (VRef 0), heap0)
   \<and> ensure_seed_sequence alloc_SeedSequence (VRef 0) heap0 = (Inr (VRef 0), heap0)"
proof -
  have a7: "accepted_seed heap0 (VInt 7)" and a2: "accepted_seed heap0 (VRef 2)"
    by (simp_all add: accepted_seed_def heap0_def isinstance_def lookup_def getattr_def)
  have e7: "ensure_seed_sequence alloc_SeedSequence (VInt 7) heap0
     = (Inr (VRef 3), heap0 @ [Obj ''SeedSequence'' [(''entropy'', VInt 7)]])"
    by (simp add: ensure_seed_sequence_def alloc_SeedSequence_def heap0_def isinstance_def)
  have e2: "ensure_seed_sequence alloc_SeedSequence (VRef 2) heap0 = (Inr (VRef 0), heap0)"
    by (simp add: ensure_seed_sequence_def heap0_def isinstance_def lookup_def getattr_def)
  show ?thesis
    using C10_ensure_seed_sequence_idempotent[OF a7 alloc_SeedSequence_constructs e7]
      C10_ensure_seed_sequence_idempotent[OF a2 alloc_SeedSequence_constructs e2] e7 e2
    by simp
qed

section \<open>\<open>call_fn_multiple_seeds\<close>: the calls and their results\<close>

lemma call_fn_multiple_seeds_Cons_Inr:
  "call_fn_multiple_seeds dc fn args (s # ss) kwargs h = (Inr rs, h') \<longleftrightarrow>
     (\<exists>r h1 rs'. call_with_seed dc fn args kwargs s h = (Inr r, h1) \<and>
        call_fn_multiple_seeds dc fn args ss kwargs h1 = (Inr rs', h') \<and> rs = r # rs')"
  by (auto split: prod.splits sum.splits)

lemma call_fn_multiple_seeds_chain:
  "call_fn_multiple_seeds dc fn args seeds kwargs h = (Inr rs, h') \<longleftrightarrow>
     (\<exists>hs. length hs = Suc (length seeds) \<and> length rs = length seeds \<and>
        hs ! 0 = h \<and> hs ! length seeds = h' \<and>
        (\<forall>i<length seeds.
           call_with_seed dc fn args kwargs (seeds ! i) (hs ! i) = (Inr (rs ! i), hs ! Suc i)))"
proof (induction seeds arbitrary: h rs)
  case Nil
  show ?case
  proof
    assume "call_fn_multiple_seeds dc fn args [] kwargs h = (Inr rs, h')"
    then have "rs = []" "h' = h" by simp_all
    then show "\<exists>hs. length hs = Suc (length []) \<and> length rs = length [] \<and>
        hs ! 0 = h \<and> hs ! length [] = h' \<and>
        (\<forall>i<length []. call_with_seed dc fn args kwargs ([] ! i) (hs ! i) = (Inr (rs ! i), hs ! Suc i))"
      by (intro exI[of _ "[h]"]) simp
  next
    assume "\<exists>hs. length hs = Suc (length []) \<and> length rs = length [] \<and>
        hs ! 0 = h \<and> hs ! length [] = h' \<and>
        (\<forall>i<length []. call_with_seed dc fn args kwargs ([] ! i) (hs ! i) = (Inr (rs ! i), hs ! Suc i))"
    then show "call_fn_multiple_seeds dc fn args [] kwargs h = (Inr rs, h')" by auto
  qed
next
  case (Cons s ss)
  show ?case
  proof
    assume "call_fn_multiple_seeds dc fn args (s # ss) kwargs h = (Inr rs, h')"
    then obtain r h1 rs' where
      1: "call_with_seed dc fn args kwargs s h = (Inr r, h1)"
      and 2: "call_fn_multiple_seeds dc fn args ss kwargs h1 = (Inr rs', h')"
      and 3: "rs = r # rs'"
      unfolding call_fn_multiple_seeds_Cons_Inr by blast
    from 2 obtain hs' where hs': "length hs' = Suc (length ss)" "length rs' = length ss"
      "hs' ! 0 = h1" "hs' ! length ss = h'"
      "\<forall>i<length ss. call_with_seed dc fn args kwargs (ss ! i) (hs' ! i) = (Inr (rs' ! i), hs' ! Suc i)"
      unfolding Cons.IH by blast
    have "\<forall>i<length (s # ss).
           call_with_seed dc fn args kwargs ((s # ss) ! i) ((h # hs') ! i)
             = (Inr (rs ! i), (h # hs') ! Suc i)"
    proof (intro allI impI)
      fix i assume "i < length (s # ss)"
      then show "call_with_seed dc fn args kwargs ((s # ss) ! i) ((h # hs') ! i)
             = (Inr (rs ! i), (h # hs') ! Suc i)"
        using 1 3 hs' by (cases i) simp_all
    qed
    then show "\<exists>hs. length hs = Suc (length (s # ss)) \<and> length rs = length (s # ss) \<and>
        hs ! 0 = h \<and> hs ! length (s # ss) = h' \<and>
        (\<forall>i<length (s # ss).
           call_with_seed dc fn args kwargs ((s # ss) ! i) (hs ! i) = (Inr (rs ! i), hs ! Suc i))"
      using hs' 3 by (intro exI[of _ "h # hs'"]) simp
  next
    assume "\<exists>hs. length hs = Suc (length (s # ss)) \<and> length rs = length (s # ss) \<and>
        hs ! 0 = h \<and> hs ! length (s # ss) = h' \<and>
        (\<forall>i<length (s # ss).
           call_with_seed dc fn args kwargs ((s # ss) ! i) (hs ! i) = (Inr (rs ! i), hs ! Suc i))"
    then obtain hs where hs: "length hs = Suc (length (s # ss))" "length rs = length (s # ss)"
        "hs ! 0 = h" "hs ! length (s # ss) = h'"
        "\<forall>i<length (s # ss).
           call_with_seed dc fn args kwargs ((s # ss) ! i) (hs ! i) = (Inr (rs ! i), hs ! Suc i)"
      by blast
    from hs(1) obtain h0 hs' where c: "hs = h0 # hs'" by (cases hs) auto
    from hs(2) obtain r rs' where r: "rs = r # rs'" by (cases rs) auto
    have 1: "call_with_seed dc fn args kwargs s h = (Inr r, hs' ! 0)"
      using hs(3) hs(5)[rule_format, of 0] c r by simp
    have "\<forall>i<length ss. call_with_seed dc fn args kwargs (ss ! i) (hs' ! i) = (Inr (rs' ! i), hs' ! Suc i)"
    proof (intro allI impI)
      fix i assume "i < length ss"
      then show "call_with_seed dc fn args kwargs (ss ! i) (hs' ! i) = (Inr (rs' ! i), hs' ! Suc i)"
        using hs(5)[rule_format, of "Suc i"] c r by simp
    qed
    then have "call_fn_multiple_seeds dc fn args ss kwargs (hs' ! 0) = (Inr rs', h')"
      unfolding Cons.IH using hs c r by (intro exI[of _ hs']) simp
    with 1 r show "call_fn_multiple_seeds dc fn args (s # ss) kwargs h = (Inr rs, h')"
      unfolding call_fn_multiple_seeds_Cons_Inr by blast
  qed
qed

text \<open>
  The calls for the seeds that follow a first part of the tuple start in the heap the
  calls for that first part left.
\<close>

lemma call_fn_multiple_seeds_append:
  "call_fn_multiple_seeds dc fn args (xs @ ys) kwargs h =
     (case call_fn_multiple_seeds dc fn args xs kwargs h of
        (Inl e, h1) \<Rightarrow> (Inl e, h1)
      | (Inr rs1, h1) \<Rightarrow>
          (case call_fn_multiple_seeds dc fn args ys kwargs h1 of
             (Inl e, h2) \<Rightarrow> (Inl e, h2)
           | (Inr rs2, h2) \<Rightarrow> (Inr (rs1 @ rs2), h2)))"
  by (induction xs arbitrary: h) (auto split: prod.splits sum.splits)

lemma call_with_seed_Inr:
  "call_with_seed dc fn args kwargs seed h = (Inr r, h') \<longleftrightarrow>
     (\<exists>args' h1 kwargs' h2. dc args h = (Inr args', h1) \<and>
        deepcopy_dict dc kwargs h1 = (Inr kwargs', h2) \<and>
        ''seed'' \<notin> fst ` set kwargs' \<and>
        fn args' (kwargs' @ [(''seed'', seed)]) h2 = (Inr r, h'))"
  by (auto simp: call_with_seed_def split: prod.splits sum.splits)


text \<open>
  Claim C3, as stated: \<open>call_fn_multiple_seeds\<close> calls \<open>fn\<close> across independently
  derived child seeds with non-overlapping random streams, for every tuple of seeds and
  every argument list. The code derives nothing: with the seeds \<open>(7, 7)\<close> both calls
  receive the seed 7. And with a key \<open>seed\<close> among the keyword arguments no tuple is
  returned: the call raises \<open>TypeError\<close>.
\<close>

theorem C3_seeds_passed_as_given_counterexample:
  "call_fn_multiple_seeds copy_all echo_seed [] [VInt 7, VInt 7] [] []
     = (Inr [VInt 7, VInt 7], [])
   \<and> \<not> distinct [VInt 7, VInt 7]
   \<and> call_fn_multiple_seeds copy_all echo_seed [] [VInt 7] [(''seed'', VInt 1)] []
       = (Inl (TypeError ''got multiple values for keyword argument seed''), [])"
  by (simp add: call_with_seed_def copy_all_def echo_seed_def deepcopy_dict_def)

text \<open>
  Claim C3, amended. \<open>call_fn_multiple_seeds\<close> passes the seeds as they are given. It
  returns a tuple exactly when the calls, made one per seed in the order of the seeds,
  each in the heap the previous one left, all return; the tuple holds their results in
  that order. The call for a seed returns exactly when the copies of the positional and
  of the keyword arguments can be made, no keyword is named \<open>seed\<close>, and \<open>fn\<close> returns
  on the copies with the seed added as the keyword \<open>seed\<close>.
\<close>

theorem C3_call_fn_multiple_seeds_in_order:
  "(call_fn_multiple_seeds deepcopy fn args seeds kwargs h = (Inr rs, h') \<longleftrightarrow>
     (\<exists>hs. length hs = Suc (length seeds) \<and> length rs = length seeds \<and>
        hs ! 0 = h \<and> hs ! length seeds = h' \<and>
        (\<forall>i<length seeds.
           call_with_seed deepcopy fn args kwargs (seeds ! i) (hs ! i)
             = (Inr (rs ! i), hs ! Suc i))))
   \<and> (call_with_seed deepcopy fn args kwargs seed h = (Inr r, h1) \<longleftrightarrow>
     (\<exists>args' ha kwargs' hb. deepcopy args h = (Inr args', ha) \<and>
        deepcopy_dict deepcopy kwargs ha = (Inr kwargs', hb) \<and>
        ''seed'' \<notin> fst ` set kwargs' \<and>
        fn args' (kwargs' @ [(''seed'', seed)]) hb = (Inr r, h1)))"
  using call_fn_multiple_seeds_chain[of deepcopy fn args seeds kwargs h rs h']
    call_with_seed_Inr[of deepcopy fn args kwargs seed h r h1]
  by blast

theorem C3_call_fn_multiple_seeds_in_order_witness:
  "call_fn_multiple_seeds copy_all echo_seed [] [VInt 3, VInt 5] [] []
     = (Inr [VInt 3, VInt 5], [])"
proof -
  have step: "call_with_seed copy_all echo_seed [] [] ([VInt 3, VInt 5] ! i) ([[], [], []] ! i)
           = (Inr ([VInt 3, VInt 5] ! i), [[], [], []] ! Suc i)"
    if "i < length [VInt 3, VInt 5]" for i
  proof -
    from that have "i = 0 \<or> i = 1" by auto
    then show ?thesis
      by (auto simp: call_with_seed_def copy_all_def echo_seed_def deepcopy_dict_def)
  qed
  have "\<exists>hs. length hs = Suc (length [VInt 3, VInt 5])
          \<and> length [VInt 3, VInt 5] = length [VInt 3, VInt 5]
          \<and> hs ! 0 = [] \<and> hs ! length [VInt 3, VInt 5] = []
          \<and> (\<forall>i<length [VInt 3, VInt 5].
               call_with_seed copy_all echo_seed [] [] ([VInt 3, VInt 5] ! i) (hs ! i)
                 = (Inr ([VInt 3, VInt 5] ! i), hs ! Suc i))"
    using step by (intro exI[of _ "[[], [], []]"]) simp
  then show ?thesis
    using C3_call_fn_multiple_seeds_in_order[of copy_all echo_seed "[]" "[VInt 3, VInt 5]"
        "[]" "[]" "[VInt 3, VInt 5]" "[]"]
    by blast
qed

section \<open>\<open>call_fn_multiple_seeds\<close>: the frame\<close>


















text \<open>
  Replacing an object that can be reached by one that refers to nothing it did not refer
  to before keeps a function within the objects it was given.
\<close>

lemma confined_update:
  assumes a: "a \<in> reach h R" "a < length h" and sub: "obj_refs ob \<subseteq> obj_refs (h ! a)"
  shows "length h \<le> length (h[a := ob]) \<and>
        (\<forall>a'<length h. a' \<notin> reach h R \<longrightarrow> h[a := ob] ! a' = h ! a') \<and>
        (\<forall>a'<length (h[a := ob]). a' \<in> reach h R \<or> length h \<le> a' \<longrightarrow>
           (\<forall>b\<in>obj_refs (h[a := ob] ! a'). b \<in> reach h R \<or> length h \<le> b))"
proof -
  have cl: "b \<in> reach h R" if "a' \<in> reach h R" "a' < length h" "b \<in> obj_refs (h ! a')" for a' b
    using that by (rule reach.step)
  have "\<forall>b\<in>obj_refs (h[a := ob] ! a'). b \<in> reach h R \<or> length h \<le> b"
    if "a' < length (h[a := ob])" "a' \<in> reach h R \<or> length h \<le> a'" for a'
  proof (cases "a' = a")
    case True
    then have "obj_refs (h[a := ob] ! a') \<subseteq> obj_refs (h ! a)" using a sub by simp
    then show ?thesis using cl[OF a] by auto
  next
    case False
    then have "h[a := ob] ! a' = h ! a'" by simp
    then show ?thesis using cl[of a'] that by auto
  qed
  moreover have "\<forall>a'<length h. a' \<notin> reach h R \<longrightarrow> h[a := ob] ! a' = h ! a'"
    using a by (metis nth_list_update_neq)
  ultimately show ?thesis by simp
qed

lemma confined_same:
  "length h \<le> length h \<and>
        (\<forall>a'<length h. a' \<notin> reach h R \<longrightarrow> h ! a' = h ! a') \<and>
        (\<forall>a'<length h. a' \<in> reach h R \<or> length h \<le> a' \<longrightarrow>
           (\<forall>b\<in>obj_refs (h ! a'). b \<in> reach h R \<or> length h \<le> b))"
  by (auto intro: reach.step)


lemma roots_update_int:
  "roots (map snd (AList.update k (VInt n) attrs)) \<subseteq> roots (map snd attrs)"
  by (induction attrs) (auto simp: roots_def)

lemma draw_from_seed_cases:
  assumes "draw_from_seed args kw h = (r, h')"
  shows "h' = h \<or> (\<exists>a c attrs n. map_of kw ''seed'' = Some (VRef a) \<and> a < length h \<and>
            h ! a = Obj c attrs \<and> h' = h[a := Obj c (AList.update ''draws'' (VInt n) attrs)])"
  using assms
  by (auto simp: draw_from_seed_def lookup_def
      split: val.splits option.splits obj.splits if_splits)

lemma draw_from_seed_confined: "confined draw_from_seed"
  unfolding confined_def
proof (intro allI impI)
  fix args kw h r h'
  assume run: "draw_from_seed args kw h = (r, h')"
  let ?R = "roots (args @ map snd kw)"
  from draw_from_seed_cases[OF run]
  show "length h \<le> length h' \<and>
        (\<forall>a<length h. a \<notin> reach h ?R \<longrightarrow> h' ! a = h ! a) \<and>
        (\<forall>a<length h'. a \<in> reach h ?R \<or> length h \<le> a \<longrightarrow>
           (\<forall>b\<in>obj_refs (h' ! a). b \<in> reach h ?R \<or> length h \<le> b))"
  proof
    assume "h' = h"
    then show ?thesis using confined_same[of h ?R] by simp
  next
    assume "\<exists>a c attrs n. map_of kw ''seed'' = Some (VRef a) \<and> a < length h \<and>
            h ! a = Obj c attrs \<and> h' = h[a := Obj c (AList.update ''draws'' (VInt n) attrs)]"
    then obtain a c attrs n where a: "map_of kw ''seed'' = Some (VRef a)" "a < length h"
      "h ! a = Obj c attrs" "h' = h[a := Obj c (AList.update ''draws'' (VInt n) attrs)]"
      by blast
    from a(1) have "(''seed'', VRef a) \<in> set kw" by (rule map_of_SomeD)
    then have "VRef a \<in> set (args @ map snd kw)" by force
    then have "a \<in> ?R" unfolding roots_def by force
    then have aF: "a \<in> reach h ?R" by (rule reach.root)
    have sub: "obj_refs (Obj c (AList.update ''draws'' (VInt n) attrs)) \<subseteq> obj_refs (h ! a)"
      using a(3) roots_update_int by (simp add: obj_refs_def)
    show ?thesis unfolding a(4) by (rule confined_update[OF aF a(2) sub])
  qed
qed

lemma call_append_method_cases:
  assumes "call_append_method args kw h = (r, h')"
  shows "h' = h \<or> (\<exists>m rest a s xs. args = VRef m # rest \<and>
            getattr h (VRef m) ''__self__'' = Inr (VRef a) \<and> a < length h \<and>
            h ! a = PyList xs \<and> h' = h[a := PyList (xs @ [VInt s])])"
  using assms
  by (auto simp: call_append_method_def lookup_def
      split: list.splits val.splits option.splits obj.splits sum.splits if_splits)

lemma getattr_reach:
  assumes "getattr h (VRef m) name = Inr (VRef a)" "m \<in> reach h R"
  shows "a \<in> reach h R"
proof -
  from assms(1) obtain c attrs where m: "m < length h" "h ! m = Obj c attrs"
    "map_of attrs name = Some (VRef a)"
    by (auto simp: getattr_def lookup_def split: option.splits obj.splits if_splits)
  from m(3) have "(name, VRef a) \<in> set attrs" by (rule map_of_SomeD)
  then have "VRef a \<in> set (map snd attrs)" by force
  then have "a \<in> obj_refs (h ! m)" unfolding m(2) obj_refs_def roots_def by force
  with assms(2) m(1) show ?thesis by (rule reach.step)
qed

lemma call_append_method_confined: "confined call_append_method"
  unfolding confined_def
proof (intro allI impI)
  fix args kw h r h'
  assume run: "call_append_method args kw h = (r, h')"
  let ?R = "roots (args @ map snd kw)"
  from call_append_method_cases[OF run]
  show "length h \<le> length h' \<and>
        (\<forall>a<length h. a \<notin> reach h ?R \<longrightarrow> h' ! a = h ! a) \<and>
        (\<forall>a<length h'. a \<in> reach h ?R \<or> length h \<le> a \<longrightarrow>
           (\<forall>b\<in>obj_refs (h' ! a). b \<in> reach h ?R \<or> length h \<le> b))"
  proof
    assume "h' = h"
    then show ?thesis using confined_same[of h ?R] by simp
  next
    assume "\<exists>m rest a s xs. args = VRef m # rest \<and>
            getattr h (VRef m) ''__self__'' = Inr (VRef a) \<and> a < length h \<and>
            h ! a = PyList xs \<and> h' = h[a := PyList (xs @ [VInt s])]"
    then obtain m rest a s xs where a: "args = VRef m # rest"
      "getattr h (VRef m) ''__self__'' = Inr (VRef a)" "a < length h" "h ! a = PyList xs"
      "h' = h[a := PyList (xs @ [VInt s])]" by blast
    have "m \<in> reach h ?R" using a(1) by (auto intro!: reach.root simp: roots_def)
    then have aF: "a \<in> reach h ?R" by (rule getattr_reach[OF a(2)])
    have sub: "obj_refs (PyList (xs @ [VInt s])) \<subseteq> obj_refs (h ! a)"
      using a(4) by (simp add: obj_refs_def roots_def)
    show ?thesis unfolding a(5) by (rule confined_update[OF aF a(3) sub])
  qed
qed

lemma reach_empty: "reach h {} = {}"
proof -
  have "a \<in> reach h {} \<Longrightarrow> False" for a
    by (induction rule: reach.induct) auto
  then show ?thesis by auto
qed

lemma kept_no_refs: "roots vs = {} \<Longrightarrow> kept atomic h vs = {}"
  by (simp add: kept_def reach_empty)






end
